theory Spec2Isabelle
  imports Complex_Main "HOL-Library.Word"
begin

unbundle bit_operations_syntax

section \<open>Python values, errors and indexing\<close>

text \<open>
  Exceptions of the source are values: a computation returns \<open>Inl e\<close> where the Python
  raises \<open>e\<close> and \<open>Inr v\<close> where it returns \<open>v\<close>.
\<close>

datatype py_error = ZeroDivisionError | IndexError | ValueError | TypeError

text \<open>
  Python sequence indexing on a sequence of length \<open>n\<close>: a negative index counts from
  the end, anything outside \<open>[-n, n)\<close> raises IndexError.
\<close>

definition py_index :: "nat \<Rightarrow> int \<Rightarrow> py_error + nat" where
  "py_index n i =
     (let j = (if i < 0 then i + int n else i)
      in if 0 \<le> j \<and> j < int n then Inr (nat j) else Inl IndexError)"

section \<open>bloom\_filter\_passwords.py: class BloomFilter\<close>

text \<open>
  \<open>mmh3.hash(item, i)\<close> is a library function (MurmurHash3, 32 bits, returned as a signed
  integer). It is a parameter of the model: a function from the string and the seed to a
  32-bit word, read as two's complement by \<open>sint\<close>; the library call is taken to return
  for every string and seed. Strings are their UTF-8 bytes. The field \<open>size\<close> of
  the source is \<open>bf_size\<close> here, and \<open>_hashes\<close> is \<open>hashes\<close>.
\<close>

type_synonym mmh3 = "string \<Rightarrow> nat \<Rightarrow> 32 word"

record BloomFilter =
  bf_size :: int
  num_hashes :: int
  bit_array :: "bool list"

text \<open>
  \<open>__init__\<close>: stores both parameters unchecked and allocates \<open>bitarray(size)\<close>, all
  bits 0. A bit array of negative length is refused. A length that the platform cannot
  allocate is refused as well (MemoryError, OverflowError from \<open>2 ^ 63\<close> bits); that
  limit is not part of the model, and what is stated about a constructor call alone is
  stated for sizes far below it.
\<close>

definition BloomFilter_init :: "int \<Rightarrow> int \<Rightarrow> py_error + BloomFilter" where
  "BloomFilter_init sz k =
     (if sz < 0 then Inl ValueError
      else Inr \<lparr>bf_size = sz, num_hashes = k, bit_array = replicate (nat sz) False\<rparr>)"

text \<open>
  \<open>_hashes\<close> is a generator: the value for seed \<open>i\<close> is computed when the consumer asks
  for it. \<open>hash_value\<close> is one such step, \<open>mmh3.hash(item, i) % self.size\<close>, with
  Python's \<open>%\<close> (the sign of the divisor, as \<open>mod\<close> on \<open>int\<close>) and its
  ZeroDivisionError; \<open>hashes\<close> lists the steps for \<open>range(self.num_hashes)\<close>, and a
  consumer stops at the first step that raises.
\<close>

definition hash_value :: "mmh3 \<Rightarrow> BloomFilter \<Rightarrow> string \<Rightarrow> nat \<Rightarrow> py_error + int" where
  "hash_value H bf item i =
     (if bf_size bf = 0 then Inl ZeroDivisionError
      else Inr (sint (H item i) mod bf_size bf))"

definition hashes :: "mmh3 \<Rightarrow> BloomFilter \<Rightarrow> string \<Rightarrow> (py_error + int) list" where
  "hashes H bf item = map (hash_value H bf item) [0..<nat (num_hashes bf)]"

text \<open>\<open>add\<close>: \<open>for hash_value in self._hashes(item): self.bit_array[hash_value] = 1\<close>.\<close>

fun add_loop :: "BloomFilter \<Rightarrow> (py_error + int) list \<Rightarrow> py_error + BloomFilter" where
  "add_loop bf [] = Inr bf"
| "add_loop bf (Inl e # hs) = Inl e"
| "add_loop bf (Inr h # hs) =
     (case py_index (length (bit_array bf)) h of
        Inl e \<Rightarrow> Inl e
      | Inr j \<Rightarrow> add_loop (bf\<lparr>bit_array := (bit_array bf)[j := True]\<rparr>) hs)"

definition add :: "mmh3 \<Rightarrow> BloomFilter \<Rightarrow> string \<Rightarrow> py_error + BloomFilter" where
  "add H bf item = add_loop bf (hashes H bf item)"

text \<open>
  \<open>check\<close>: \<open>all(self.bit_array[hash_value] for hash_value in self._hashes(item))\<close>;
  \<open>all\<close> stops at the first bit that is 0.
\<close>

fun check_loop :: "bool list \<Rightarrow> (py_error + int) list \<Rightarrow> py_error + bool" where
  "check_loop ba [] = Inr True"
| "check_loop ba (Inl e # hs) = Inl e"
| "check_loop ba (Inr h # hs) =
     (case py_index (length ba) h of
        Inl e \<Rightarrow> Inl e
      | Inr j \<Rightarrow> if ba ! j then check_loop ba hs else Inr False)"

definition check :: "mmh3 \<Rightarrow> BloomFilter \<Rightarrow> string \<Rightarrow> py_error + bool" where
  "check H bf item = check_loop (bit_array bf) (hashes H bf item)"

text \<open>A client's sequence of calls on one filter; the results of the checks are collected.\<close>

datatype bloom_op = Add string | Check string

fun run :: "mmh3 \<Rightarrow> BloomFilter \<Rightarrow> bloom_op list \<Rightarrow> py_error + (BloomFilter \<times> bool list)" where
  "run H bf [] = Inr (bf, [])"
| "run H bf (Add s # ops) =
     (case add H bf s of Inl e \<Rightarrow> Inl e | Inr bf' \<Rightarrow> run H bf' ops)"
| "run H bf (Check s # ops) =
     (case check H bf s of
        Inl e \<Rightarrow> Inl e
      | Inr r \<Rightarrow> (case run H bf ops of Inl e \<Rightarrow> Inl e | Inr (bf', rs) \<Rightarrow> Inr (bf', r # rs)))"

text \<open>
  A stand-in for the hash parameter, used only where a theorem is evaluated at a concrete
  input. It is not MurmurHash3; the theorems hold for every hash function.
\<close>

definition sample_mmh3 :: mmh3 where
  "sample_mmh3 item seed =
     word_of_nat (sum_list (map of_char item)) * 2654435761 + word_of_nat seed * 40503 + 1"

text \<open>The state a constructor call with a positive size leaves, and every add keeps.\<close>

definition bf_wf :: "BloomFilter \<Rightarrow> bool" where
  "bf_wf bf \<longleftrightarrow> 0 < bf_size bf \<and> length (bit_array bf) = nat (bf_size bf)"

text \<open>The bits an item probes are all set: what \<open>check\<close> tests.\<close>

definition probes_set :: "mmh3 \<Rightarrow> BloomFilter \<Rightarrow> string \<Rightarrow> bool" where
  "probes_set H bf item \<longleftrightarrow>
     (\<forall>e \<in> set (hashes H bf item).
        \<exists>h j. e = Inr h \<and> py_index (length (bit_array bf)) h = Inr j \<and> bit_array bf ! j)"

section \<open>bloom\_filter\_passwords.py: check\_password\_uniqueness\<close>

text \<open>
  The elements of \<open>passwords\<close> are arbitrary Python objects; the function tells strings
  from the rest and uses every element as a dictionary key, which raises TypeError for
  an unhashable one (a list). The three status texts are distinct string literals of
  the source, here the constructors \<open>Incorrect\<close> (the rejection), \<open>Already_used\<close>
  and \<open>Unique\<close>.
\<close>

datatype pyval = PyStr string | PyInt int | PyNone | PyList "pyval list"

datatype status = Incorrect | Already_used | Unique

fun hashable :: "pyval \<Rightarrow> bool" where
  "hashable (PyList xs) = False"
| "hashable v = True"

text \<open>The negation of the guard \<open>not isinstance(password, str) or not password\<close>.\<close>

fun valid_password :: "pyval \<Rightarrow> bool" where
  "valid_password (PyStr s) = (s \<noteq> [])"
| "valid_password v = False"

text \<open>
  The loop over \<open>passwords\<close>, with the filter it mutates and the dictionary \<open>results\<close>
  it fills passed along; an assignment to a key that is present overwrites its value.
\<close>

fun cpu_loop ::
  "mmh3 \<Rightarrow> BloomFilter \<Rightarrow> (pyval \<rightharpoonup> status) \<Rightarrow> pyval list \<Rightarrow>
     py_error + (BloomFilter \<times> (pyval \<rightharpoonup> status))" where
  "cpu_loop H bf results [] = Inr (bf, results)"
| "cpu_loop H bf results (password # rest) =
     (case password of
        PyStr s \<Rightarrow>
          if s = [] then cpu_loop H bf (results(password \<mapsto> Incorrect)) rest
          else (case check H bf s of
                  Inl e \<Rightarrow> Inl e
                | Inr r \<Rightarrow>
                    if r then cpu_loop H bf (results(password \<mapsto> Already_used)) rest
                    else (case add H bf s of
                            Inl e \<Rightarrow> Inl e
                          | Inr bf' \<Rightarrow> cpu_loop H bf' (results(password \<mapsto> Unique)) rest))
      | PyInt n \<Rightarrow> cpu_loop H bf (results(password \<mapsto> Incorrect)) rest
      | PyNone \<Rightarrow> cpu_loop H bf (results(password \<mapsto> Incorrect)) rest
      | PyList xs \<Rightarrow> Inl TypeError)"

declare cpu_loop.simps(2) [simp del]

definition check_password_uniqueness ::
  "mmh3 \<Rightarrow> BloomFilter \<Rightarrow> pyval list \<Rightarrow> py_error + (BloomFilter \<times> (pyval \<rightharpoonup> status))" where
  "check_password_uniqueness H bloom_filter passwords = cpu_loop H bloom_filter Map.empty passwords"

section \<open>compare\_methods.py: class HyperLogLog\<close>

text \<open>
  \<open>hashlib.md5\<close> is a library function; it is a parameter of the model, a function from
  the string to the 128-bit digest. \<open>_hash\<close> reads the hexadecimal digest as a
  non-negative integer. The fields \<open>b\<close> and \<open>m\<close> of the source are \<open>hll_b\<close> and
  \<open>hll_m\<close> here; its methods \<open>_hash\<close>, \<open>add\<close>, \<open>_rho\<close> and \<open>count\<close> are
  \<open>hll_hash\<close>, \<open>hll_add\<close>, \<open>rho\<close> and \<open>hll_count\<close>.
\<close>

type_synonym md5 = "string \<Rightarrow> 128 word"

record HyperLogLog =
  hll_b :: int
  hll_m :: int
  buckets :: "int list"

text \<open>
  \<open>__init__\<close>: \<open>1 << b\<close> raises ValueError for a negative shift count. The list
  \<open>[0] * self.m\<close> is allocated whatever \<open>b\<close> is; a length that the platform cannot
  allocate raises MemoryError or OverflowError (from about \<open>b = 59\<close>), a limit that is
  not part of the model: what is stated about a constructor call alone is stated for
  \<open>b\<close> far below it.
\<close>

definition HyperLogLog_init :: "int \<Rightarrow> py_error + HyperLogLog" where
  "HyperLogLog_init b =
     (if b < 0 then Inl ValueError
      else Inr \<lparr>hll_b = b, hll_m = push_bit (nat b) 1,
                buckets = replicate (nat (push_bit (nat b) (1::int))) 0\<rparr>)"

definition hll_hash :: "md5 \<Rightarrow> string \<Rightarrow> int" where
  "hll_hash M v = uint (M v)"

text \<open>
  \<open>_rho\<close>: \<open>(w.bit_length() - len(bin(w).lstrip('-0b'))) + 1\<close>. \<open>bit_length\<close> is the
  number of binary digits of the absolute value (0 for 0); \<open>bin\<close> writes the sign,
  \<open>0b\<close> and the binary digits without leading zeros (\<open>0b0\<close> for 0); \<open>lstrip\<close> drops
  leading characters that occur in its argument.
\<close>

fun bit_length :: "nat \<Rightarrow> nat" where
  "bit_length n = (if n = 0 then 0 else Suc (bit_length (n div 2)))"

fun bin_digits :: "nat \<Rightarrow> string" where
  "bin_digits n =
     (if n < 2 then [if n = 0 then CHR ''0'' else CHR ''1'']
      else bin_digits (n div 2) @ [if even n then CHR ''0'' else CHR ''1''])"

declare bit_length.simps [simp del] bin_digits.simps [simp del]

definition py_bin :: "int \<Rightarrow> string" where
  "py_bin w = (if w < 0 then ''-'' else []) @ ''0b'' @ bin_digits (nat \<bar>w\<bar>)"

definition lstrip :: "string \<Rightarrow> string \<Rightarrow> string" where
  "lstrip s chars = dropWhile (\<lambda>c. c \<in> set chars) s"

definition rho :: "int \<Rightarrow> int" where
  "rho w = (int (bit_length (nat \<bar>w\<bar>)) - int (length (lstrip (py_bin w) ''-0b''))) + 1"

text \<open>
  The rank as the specification words it: 1 plus the number of leading zero bits of
  \<open>w\<close> within its field of \<open>W - b\<close> bits, which is \<open>W - b + 1\<close> for \<open>w = 0\<close>.
\<close>

definition rank_spec :: "nat \<Rightarrow> nat \<Rightarrow> int \<Rightarrow> int" where
  "rank_spec W b w = 1 + (int W - int b - int (bit_length (nat w)))"

text \<open>
  \<open>add\<close>: \<open>x >> self.b\<close> raises ValueError for a negative shift count; the bucket is
  read and written at the same index \<open>j = x & (self.m - 1)\<close>.
\<close>

definition hll_add :: "md5 \<Rightarrow> HyperLogLog \<Rightarrow> string \<Rightarrow> py_error + HyperLogLog" where
  "hll_add M h v =
     (let x = hll_hash M v;
          j = x AND (hll_m h - 1)
      in if hll_b h < 0 then Inl ValueError
         else let w = drop_bit (nat (hll_b h)) x
              in case py_index (length (buckets h)) j of
                   Inl e \<Rightarrow> Inl e
                 | Inr i \<Rightarrow> Inr (h\<lparr>buckets := (buckets h)[i := max (buckets h ! i) (rho w)]\<rparr>))"

fun hll_add_all :: "md5 \<Rightarrow> HyperLogLog \<Rightarrow> string list \<Rightarrow> py_error + HyperLogLog" where
  "hll_add_all M h [] = Inr h"
| "hll_add_all M h (v # vs) =
     (case hll_add M h v of Inl e \<Rightarrow> Inl e | Inr h' \<Rightarrow> hll_add_all M h' vs)"

text \<open>
  \<open>count\<close>. The source computes in double-precision floating point; the model computes
  the same expression in exact real arithmetic, so it says which expression is returned
  and where a division by zero is raised, not how the result is rounded. Rounding moves
  a result by a relative error of some \<open>2 ^ - 50\<close>, far less than the distances the
  statements below rest on. \<open>pow2_neg bucket\<close> is \<open>2 ** -bucket\<close>, an integer for
  \<open>bucket \<le> 0\<close>.
\<close>

definition pow2_neg :: "int \<Rightarrow> real" where
  "pow2_neg bucket = (if bucket \<le> 0 then 2 ^ nat (- bucket) else 1 / 2 ^ nat bucket)"

definition hll_count :: "HyperLogLog \<Rightarrow> py_error + real" where
  "hll_count h =
     (let Z = sum_list (map pow2_neg (buckets h))
      in if hll_m h = 0 then Inl ZeroDivisionError
         else if 1 + 1.079 / real_of_int (hll_m h) = 0 then Inl ZeroDivisionError
         else if Z = 0 then Inl ZeroDivisionError
         else Inr ((0.7213 / (1 + 1.079 / real_of_int (hll_m h))) * (real_of_int (hll_m h))\<^sup>2 / Z))"

text \<open>The state a constructor call leaves, and every add keeps.\<close>

definition hll_wf :: "HyperLogLog \<Rightarrow> bool" where
  "hll_wf h \<longleftrightarrow> 0 \<le> hll_b h \<and> hll_m h = 2 ^ nat (hll_b h) \<and> length (buckets h) = nat (hll_m h)"

text \<open>
  The MD5 digests of a few strings, as \<open>hashlib\<close> computes them, for evaluating at
  concrete inputs; the value at any other string is not used.
\<close>

definition sample_md5 :: md5 where
  "sample_md5 v =
     (if v = ''a'' then 0x0cc175b9c0f1b6a831c399e269772661
      else if v = ''b'' then 0x92eb5ffee6ae2fec3ad71c777531578f
      else if v = ''c'' then 0x4a8a08f09d37b73795649038408b5f33
      else if v = ''d'' then 0x8277e0910d750195b448797616e091ad
      else if v = ''e'' then 0xe1671797c52e15f763380b45e841ec32
      else if v = ''hello'' then 0x5d41402abc4b2a76b9719d911017c592
      else 0)"

text \<open>A filter as \<open>BloomFilter(10, 3)\<close> and an estimator as \<open>HyperLogLog(2)\<close> leave them.\<close>

definition sample_filter :: BloomFilter where
  "sample_filter = \<lparr>bf_size = 10, num_hashes = 3, bit_array = replicate 10 False\<rparr>"

definition sample_estimator :: HyperLogLog where
  "sample_estimator = \<lparr>hll_b = 2, hll_m = 4, buckets = [0, 0, 0, 0]\<rparr>"

section \<open>Facts about the Bloom filter\<close>

lemma py_index_in_range: "0 \<le> h \<Longrightarrow> h < int n \<Longrightarrow> py_index n h = Inr (nat h)"
  by (simp add: py_index_def)

lemma py_index_Inr_less: "py_index n h = Inr j \<Longrightarrow> j < n"
  by (auto simp: py_index_def Let_def split: if_splits)

lemma hashes_cong:
  "bf_size bf' = bf_size bf \<Longrightarrow> num_hashes bf' = num_hashes bf \<Longrightarrow> hashes H bf' item = hashes H bf item"
  by (simp add: hashes_def hash_value_def fun_eq_iff)

lemma hashes_in_range:
  assumes "0 < bf_size bf" and "e \<in> set (hashes H bf item)"
  shows "\<exists>h. e = Inr h \<and> 0 \<le> h \<and> h < bf_size bf"
  using assms by (auto simp: hashes_def hash_value_def)

lemma add_loop_fields:
  "add_loop bf hs = Inr bf' \<Longrightarrow>
     bf_size bf' = bf_size bf \<and> num_hashes bf' = num_hashes bf \<and>
     length (bit_array bf') = length (bit_array bf)"
  by (induction bf hs rule: add_loop.induct) (auto split: sum.splits)

lemma add_loop_mono:
  "add_loop bf hs = Inr bf' \<Longrightarrow> i < length (bit_array bf) \<Longrightarrow> bit_array bf ! i \<Longrightarrow> bit_array bf' ! i"
proof (induction bf hs rule: add_loop.induct)
  case (3 bf h hs)
  from "3.prems"(1) obtain j where j: "py_index (length (bit_array bf)) h = Inr j"
    and rest: "add_loop (bf\<lparr>bit_array := (bit_array bf)[j := True]\<rparr>) hs = Inr bf'"
    by (auto split: sum.splits)
  have "bit_array (bf\<lparr>bit_array := (bit_array bf)[j := True]\<rparr>) ! i"
    using "3.prems"(2,3) by (cases "i = j") simp_all
  with "3.IH"[OF j rest] "3.prems"(2) show ?case by simp
qed simp_all

lemma add_loop_sets:
  "add_loop bf hs = Inr bf' \<Longrightarrow> e \<in> set hs \<Longrightarrow>
     \<exists>h j. e = Inr h \<and> py_index (length (bit_array bf)) h = Inr j \<and> bit_array bf' ! j"
proof (induction bf hs rule: add_loop.induct)
  case (3 bf h hs)
  let ?bf1 = "bf\<lparr>bit_array := (bit_array bf)[j := True]\<rparr>"
  from "3.prems"(1) obtain j where j: "py_index (length (bit_array bf)) h = Inr j"
    and rest: "add_loop (bf\<lparr>bit_array := (bit_array bf)[j := True]\<rparr>) hs = Inr bf'"
    by (auto split: sum.splits)
  have jl: "j < length (bit_array bf)" using j by (rule py_index_Inr_less)
  show ?case
  proof (cases "e = Inr h")
    case True
    have "bit_array (bf\<lparr>bit_array := (bit_array bf)[j := True]\<rparr>) ! j" using jl by simp
    then have "bit_array bf' ! j" using add_loop_mono[OF rest, of j] jl by simp
    with True j show ?thesis by blast
  next
    case False
    with "3.prems"(2) have "e \<in> set hs" by simp
    from "3.IH"[OF j rest this] show ?thesis by simp
  qed
qed simp_all

lemma add_loop_total:
  "(\<And>e. e \<in> set hs \<Longrightarrow> \<exists>h. e = Inr h \<and> 0 \<le> h \<and> h < int (length (bit_array bf))) \<Longrightarrow>
     \<exists>bf'. add_loop bf hs = Inr bf'"
proof (induction bf hs rule: add_loop.induct)
  case (1 bf)
  show ?case by simp
next
  case (2 bf e hs)
  from "2.prems"[of "Inl e"] show ?case by simp
next
  case (3 bf h hs)
  from "3.prems"[of "Inr h"] have h: "0 \<le> h" "h < int (length (bit_array bf))" by auto
  then have j: "py_index (length (bit_array bf)) h = Inr (nat h)" by (rule py_index_in_range)
  have "\<exists>bf'. add_loop (bf\<lparr>bit_array := (bit_array bf)[nat h := True]\<rparr>) hs = Inr bf'"
    by (rule "3.IH"[OF j]) (use "3.prems" in simp)
  with j show ?case by simp
qed

lemma check_loop_all_set:
  "(\<And>e. e \<in> set hs \<Longrightarrow> \<exists>h j. e = Inr h \<and> py_index (length ba) h = Inr j \<and> ba ! j) \<Longrightarrow>
     check_loop ba hs = Inr True"
proof (induction ba hs rule: check_loop.induct)
  case (1 ba)
  show ?case by simp
next
  case (2 ba e hs)
  from "2.prems"[of "Inl e"] show ?case by simp
next
  case (3 ba h hs)
  from "3.prems"[of "Inr h"] obtain j where j: "py_index (length ba) h = Inr j" "ba ! j" by auto
  have "check_loop ba hs = Inr True"
    by (rule "3.IH"[OF j]) (use "3.prems" in simp)
  with j show ?case by simp
qed

lemma check_loop_total:
  "(\<And>e. e \<in> set hs \<Longrightarrow> \<exists>h. e = Inr h \<and> 0 \<le> h \<and> h < int (length ba)) \<Longrightarrow>
     \<exists>r. check_loop ba hs = Inr r"
proof (induction ba hs rule: check_loop.induct)
  case (1 ba)
  show ?case by auto
next
  case (2 ba e hs)
  from "2.prems"[of "Inl e"] show ?case by simp
next
  case (3 ba h hs)
  from "3.prems"[of "Inr h"] have h: "0 \<le> h" "h < int (length ba)" by auto
  then have j: "py_index (length ba) h = Inr (nat h)" by (rule py_index_in_range)
  show ?case
  proof (cases "ba ! nat h")
    case True
    have "\<exists>r. check_loop ba hs = Inr r"
      by (rule "3.IH"[OF j True]) (use "3.prems" in simp)
    with j True show ?thesis by simp
  next
    case False
    with j show ?thesis by auto
  qed
qed

lemma add_wf:
  assumes "bf_wf bf"
  shows "\<exists>bf'. add H bf item = Inr bf' \<and> bf_wf bf' \<and> bf_size bf' = bf_size bf \<and>
           num_hashes bf' = num_hashes bf"
proof -
  from assms have sz: "0 < bf_size bf" and len: "int (length (bit_array bf)) = bf_size bf"
    by (simp_all add: bf_wf_def)
  have "\<exists>bf'. add_loop bf (hashes H bf item) = Inr bf'"
    by (rule add_loop_total) (use hashes_in_range[OF sz] len in simp)
  then obtain bf' where a: "add_loop bf (hashes H bf item) = Inr bf'" ..
  from add_loop_fields[OF a] assms have "bf_wf bf'" by (simp add: bf_wf_def)
  with a add_loop_fields[OF a] show ?thesis by (simp add: add_def)
qed

lemma check_wf:
  assumes "bf_wf bf"
  shows "\<exists>r. check H bf item = Inr r"
proof -
  from assms have sz: "0 < bf_size bf" and len: "int (length (bit_array bf)) = bf_size bf"
    by (simp_all add: bf_wf_def)
  show ?thesis unfolding check_def
    by (rule check_loop_total) (use hashes_in_range[OF sz] len in simp)
qed


lemma probes_set_check: "probes_set H bf item \<Longrightarrow> check H bf item = Inr True"
  unfolding check_def probes_set_def by (rule check_loop_all_set) blast

lemma add_probes_set: "add H bf item = Inr bf' \<Longrightarrow> probes_set H bf' item"
  unfolding probes_set_def add_def
proof
  fix e
  assume a: "add_loop bf (hashes H bf item) = Inr bf'" and e: "e \<in> set (hashes H bf' item)"
  note f = add_loop_fields[OF a]
  from e f hashes_cong[of bf' bf H item] have "e \<in> set (hashes H bf item)" by simp
  from add_loop_sets[OF a this] f
  show "\<exists>h j. e = Inr h \<and> py_index (length (bit_array bf')) h = Inr j \<and> bit_array bf' ! j"
    by simp
qed

lemma add_keeps_probes_set:
  assumes "add H bf other = Inr bf'" and "probes_set H bf item"
  shows "probes_set H bf' item"
  unfolding probes_set_def
proof
  fix e
  assume e: "e \<in> set (hashes H bf' item)"
  from assms(1) have a: "add_loop bf (hashes H bf other) = Inr bf'" by (simp add: add_def)
  note f = add_loop_fields[OF a]
  from e f hashes_cong[of bf' bf H item] have "e \<in> set (hashes H bf item)" by simp
  with assms(2) obtain h j where hj: "e = Inr h" "py_index (length (bit_array bf)) h = Inr j"
    "bit_array bf ! j" unfolding probes_set_def by blast
  from hj(2) have "j < length (bit_array bf)" by (rule py_index_Inr_less)
  from add_loop_mono[OF a this hj(3)] hj f
  show "\<exists>h j. e = Inr h \<and> py_index (length (bit_array bf')) h = Inr j \<and> bit_array bf' ! j"
    by simp
qed

lemma run_wf:
  "bf_wf bf \<Longrightarrow> \<exists>bf' rs. run H bf ops = Inr (bf', rs) \<and> bf_wf bf' \<and> bf_size bf' = bf_size bf \<and>
      num_hashes bf' = num_hashes bf"
proof (induction ops arbitrary: bf)
  case Nil
  then show ?case by simp
next
  case (Cons x ops)
  show ?case
  proof (cases x)
    case (Add s)
    from add_wf[OF Cons.prems, of H s] obtain bf1 where a: "add H bf s = Inr bf1" "bf_wf bf1"
      "bf_size bf1 = bf_size bf" "num_hashes bf1 = num_hashes bf" by blast
    from Cons.IH[OF a(2)] a Add show ?thesis by auto
  next
    case (Check s)
    from check_wf[OF Cons.prems, of H s] obtain r where r: "check H bf s = Inr r" ..
    from Cons.IH[OF Cons.prems] r Check show ?thesis by auto
  qed
qed

lemma run_keeps_probes_set:
  "run H bf ops = Inr (bf', rs) \<Longrightarrow> probes_set H bf item \<Longrightarrow> probes_set H bf' item"
proof (induction ops arbitrary: bf rs)
  case Nil
  then show ?case by simp
next
  case (Cons x ops)
  show ?case
  proof (cases x)
    case (Add s)
    with Cons.prems(1) obtain bf1 where a: "add H bf s = Inr bf1" "run H bf1 ops = Inr (bf', rs)"
      by (auto split: sum.splits)
    from Cons.IH[OF a(2) add_keeps_probes_set[OF a(1) Cons.prems(2)]] show ?thesis .
  next
    case (Check s)
    with Cons.prems(1) obtain rs' where "run H bf ops = Inr (bf', rs')"
      by (auto split: sum.splits)
    from Cons.IH[OF this Cons.prems(2)] show ?thesis .
  qed
qed

lemma run_append:
  "run H bf (xs @ ys) =
     (case run H bf xs of
        Inl e \<Rightarrow> Inl e
      | Inr (bf1, r1) \<Rightarrow>
          (case run H bf1 ys of Inl e \<Rightarrow> Inl e | Inr (bf2, r2) \<Rightarrow> Inr (bf2, r1 @ r2)))"
proof (induction xs arbitrary: bf)
  case Nil
  show ?case by (simp split: sum.splits)
next
  case (Cons x xs)
  show ?case by (cases x) (simp_all add: Cons.IH split: sum.splits prod.splits)
qed

lemma init_wf: "0 < m \<Longrightarrow> \<exists>bf0. BloomFilter_init m k = Inr bf0 \<and> bf_wf bf0 \<and> bf_size bf0 = m \<and> num_hashes bf0 = k"
  by (simp add: BloomFilter_init_def bf_wf_def)

text \<open>
  Claim C1 (no false negatives). On a filter constructed with a positive size, for any
  calls \<open>before\<close>, then \<open>add(s)\<close>, then any calls \<open>after\<close>: every call returns, and
  a \<open>check(s)\<close> made then returns True. This holds for every hash function and every
  number of hashes.
\<close>

theorem no_false_negatives:
  assumes "0 < m"
  shows "\<exists>bf0 bf rs. BloomFilter_init m k = Inr bf0 \<and>
           run H bf0 (before @ Add s # after @ [Check s]) = Inr (bf, rs @ [True])"
proof -
  from init_wf[OF assms] obtain bf0 where i: "BloomFilter_init m k = Inr bf0" "bf_wf bf0" by blast
  from run_wf[OF i(2)] obtain bf1 r1 where r1: "run H bf0 before = Inr (bf1, r1)" "bf_wf bf1"
    by blast
  from add_wf[OF r1(2)] obtain bf2 where a: "add H bf1 s = Inr bf2" "bf_wf bf2" by blast
  from run_wf[OF a(2)] obtain bf3 r3 where r3: "run H bf2 after = Inr (bf3, r3)" by blast
  have "probes_set H bf3 s"
    using run_keeps_probes_set[OF r3 add_probes_set[OF a(1)]] .
  then have c: "check H bf3 s = Inr True" by (rule probes_set_check)
  have "run H bf0 (before @ Add s # after @ [Check s]) = Inr (bf3, (r1 @ r3) @ [True])"
    using r1(1) a(1) r3 c by (simp add: run_append)
  with i(1) show ?thesis by blast
qed

theorem no_false_negatives_witness:
  "\<exists>bf0 bf rs. BloomFilter_init 10 3 = Inr bf0 \<and>
     run sample_mmh3 bf0 ([Add ''x'', Check ''a''] @ Add ''a'' # [Add ''y'', Check ''z''] @ [Check ''a''])
       = Inr (bf, rs @ [True])"
  using no_false_negatives [of 10 3 sample_mmh3 "[Add ''x'', Check ''a'']" "''a''" "[Add ''y'', Check ''z'']"]
  by simp

section \<open>Facts about the rank function\<close>

lemma bit_length_0: "bit_length 0 = 0"
  by (simp add: bit_length.simps)

lemma bit_length_pos: "0 < n \<Longrightarrow> bit_length n = Suc (bit_length (n div 2))"
  by (subst bit_length.simps) simp

lemma bin_digits_small: "n < 2 \<Longrightarrow> bin_digits n = [if n = 0 then CHR ''0'' else CHR ''1'']"
  by (subst bin_digits.simps) simp

lemma bin_digits_large:
  "2 \<le> n \<Longrightarrow> bin_digits n = bin_digits (n div 2) @ [if even n then CHR ''0'' else CHR ''1'']"
  by (subst bin_digits.simps) simp

lemma bin_digits_shape:
  "0 < n \<Longrightarrow> length (bin_digits n) = bit_length n \<and> (\<exists>ds. bin_digits n = CHR ''1'' # ds)"
proof (induction n rule: bin_digits.induct)
  case (1 n)
  show ?case
  proof (cases "n < 2")
    case True
    with "1.prems" have n: "n = 1" by simp
    have "bit_length 1 = 1" by (simp add: bit_length_pos bit_length_0)
    with n show ?thesis by (simp add: bin_digits_small)
  next
    case False
    then have pos: "0 < n div 2" by simp
    from "1.IH"[OF False pos] obtain ds
      where len: "length (bin_digits (n div 2)) = bit_length (n div 2)"
        and hd: "bin_digits (n div 2) = CHR ''1'' # ds" by blast
    from False have "bit_length n = Suc (bit_length (n div 2))" by (simp add: bit_length_pos)
    with len hd False show ?thesis by (simp add: bin_digits_large)
  qed
qed

lemma lstrip_py_bin_pos:
  assumes "w \<noteq> 0"
  shows "lstrip (py_bin w) ''-0b'' = bin_digits (nat \<bar>w\<bar>)"
proof -
  from assms have "0 < nat \<bar>w\<bar>" by simp
  from bin_digits_shape[OF this] obtain ds where "bin_digits (nat \<bar>w\<bar>) = CHR ''1'' # ds" by blast
  then show ?thesis by (simp add: lstrip_def py_bin_def)
qed

lemma lstrip_py_bin_0: "lstrip (py_bin 0) ''-0b'' = []"
  by (simp add: lstrip_def py_bin_def bin_digits_small)

lemma rho_eq_1: "rho w = 1"
proof (cases "w = 0")
  case True
  then show ?thesis by (simp add: rho_def lstrip_py_bin_0 bit_length_0)
next
  case False
  then have "0 < nat \<bar>w\<bar>" by simp
  from bin_digits_shape[OF this] lstrip_py_bin_pos[OF False] show ?thesis
    by (simp add: rho_def)
qed

lemma bit_length_bounds: "0 < n \<Longrightarrow> 2 ^ (bit_length n - 1) \<le> n \<and> n < 2 ^ bit_length n"
proof (induction n rule: bit_length.induct)
  case (1 n)
  show ?case
  proof (cases "n div 2 = 0")
    case True
    with "1.prems" have "n = 1" by (simp add: div_eq_0_iff) 
    then show ?thesis by (simp add: bit_length_pos bit_length_0)
  next
    case False
    then have pos: "0 < n div 2" by simp
    from "1.prems" have nz: "n \<noteq> 0" by simp
    from "1.IH"[OF nz pos] have ih: "2 ^ (bit_length (n div 2) - 1) \<le> n div 2" "n div 2 < 2 ^ bit_length (n div 2)" by auto
    have bl: "bit_length n = Suc (bit_length (n div 2))" using "1.prems" by (rule bit_length_pos)
    have "0 < bit_length (n div 2)" using pos by (simp add: bit_length_pos)
    then obtain k where k: "bit_length (n div 2) = Suc k" by (cases "bit_length (n div 2)") auto
    from ih k have "2 * 2 ^ k \<le> n" "n < 2 * 2 ^ Suc k" by auto
    with bl k show ?thesis by simp
  qed
qed

lemma bit_length_eqI:
  assumes "2 ^ k \<le> n" and "n < 2 ^ Suc k"
  shows "bit_length n = Suc k"
proof -
  from assms(1) have pos: "0 < n" by (metis less_le_trans zero_less_numeral zero_less_power)
  from bit_length_bounds[OF pos] have b: "2 ^ (bit_length n - 1) \<le> n" "n < 2 ^ bit_length n" by auto
  have "k < bit_length n"
  proof (rule ccontr)
    assume "\<not> k < bit_length n"
    then have "(2::nat) ^ bit_length n \<le> 2 ^ k" by (simp add: power_increasing)
    with b(2) assms(1) show False by simp
  qed
  moreover have "bit_length n - 1 < Suc k"
  proof (rule ccontr)
    assume "\<not> bit_length n - 1 < Suc k"
    then have "(2::nat) ^ Suc k \<le> 2 ^ (bit_length n - 1)" by (intro power_increasing) simp_all
    with b(1) assms(2) show False by simp
  qed
  ultimately show ?thesis by simp
qed

text \<open>
  Claim C2 (rank function). \<open>_rho\<close> does not count leading zero bits: \<open>bin\<close> never
  writes a leading zero, so the stripped text is as long as \<open>bit_length\<close> and the result
  is 1 for every integer (lemma \<open>rho_eq_1\<close>). For the remainder of the MD5 digest of
  \<open>hello\<close> with \<open>b = 4\<close>, whose 124-bit field has one leading zero bit, the code returns 1
  where the rank is 2; for \<open>w = 0\<close> it returns 1 where the rank is 125.
\<close>

theorem rho_misses_leading_zeros:
  "rho 0x5d41402abc4b2a76b9719d911017c59 = 1 \<and>
   rank_spec 128 4 0x5d41402abc4b2a76b9719d911017c59 = 2 \<and>
   rho 0 = 1 \<and> rank_spec 128 4 0 = 125"
proof -
  have "bit_length 0x5d41402abc4b2a76b9719d911017c59 = Suc 122"
    by (rule bit_length_eqI) simp_all
  then show ?thesis by (simp add: rho_eq_1 rank_spec_def bit_length_0)
qed

section \<open>Facts about repeated and successive adds\<close>

lemma add_loop_noop:
  "(\<And>e. e \<in> set hs \<Longrightarrow> \<exists>h j. e = Inr h \<and> py_index (length (bit_array bf)) h = Inr j \<and> bit_array bf ! j) \<Longrightarrow>
     add_loop bf hs = Inr bf"
proof (induction hs)
  case Nil
  show ?case by simp
next
  case (Cons x hs)
  from Cons.prems[of x] obtain h j where x: "x = Inr h" "py_index (length (bit_array bf)) h = Inr j"
    "bit_array bf ! j" by auto
  from x(3) have "(bit_array bf)[j := True] = bit_array bf" by (metis list_update_id)
  moreover have "add_loop bf hs = Inr bf" by (rule Cons.IH) (use Cons.prems in simp)
  ultimately show ?case using x by simp
qed

lemma probes_set_add: "probes_set H bf item \<Longrightarrow> add H bf item = Inr bf"
  unfolding add_def probes_set_def by (rule add_loop_noop) blast

lemma run_mono:
  "run H bf ops = Inr (bf', rs) \<Longrightarrow>
     length (bit_array bf') = length (bit_array bf) \<and>
     (\<forall>i<length (bit_array bf). bit_array bf ! i \<longrightarrow> bit_array bf' ! i)"
proof (induction ops arbitrary: bf rs)
  case Nil
  then show ?case by simp
next
  case (Cons x ops)
  show ?case
  proof (cases x)
    case (Add s)
    with Cons.prems obtain bf1 where a: "add H bf s = Inr bf1" "run H bf1 ops = Inr (bf', rs)"
      by (auto split: sum.splits)
    from a(1) have l: "add_loop bf (hashes H bf s) = Inr bf1" by (simp add: add_def)
    from add_loop_fields[OF l] add_loop_mono[OF l] Cons.IH[OF a(2)] show ?thesis by simp
  next
    case (Check s)
    with Cons.prems obtain rs' where "run H bf ops = Inr (bf', rs')"
      by (auto split: sum.splits)
    from Cons.IH[OF this] show ?thesis .
  qed
qed

section \<open>Facts about the estimator\<close>

lemma bucket_index_in_range:
  assumes "hll_wf h"
  shows "py_index (length (buckets h)) (hll_hash M v AND (hll_m h - 1)) =
           Inr (nat (hll_hash M v AND (hll_m h - 1)))"
proof (rule py_index_in_range)
  from assms have m: "hll_m h = 2 ^ nat (hll_b h)" and len: "int (length (buckets h)) = hll_m h"
    by (simp_all add: hll_wf_def)
  from m have m1: "0 \<le> hll_m h - 1" by simp
  show "0 \<le> hll_hash M v AND (hll_m h - 1)" using m1 by simp
  have "hll_hash M v AND (hll_m h - 1) \<le> hll_m h - 1" using m1 by (rule AND_upper2)
  then show "hll_hash M v AND (hll_m h - 1) < int (length (buckets h))" using len by simp
qed

lemma hll_add_wf:
  assumes "hll_wf h"
  shows "\<exists>h'. hll_add M h v = Inr h' \<and> hll_wf h' \<and> hll_b h' = hll_b h \<and> hll_m h' = hll_m h"
  using assms bucket_index_in_range[OF assms, of M v]
  by (simp add: hll_add_def Let_def hll_wf_def)

lemma hll_add_mono:
  assumes "hll_add M h v = Inr h'"
  shows "length (buckets h') = length (buckets h) \<and> (\<forall>j<length (buckets h). buckets h ! j \<le> buckets h' ! j)"
proof -
  from assms obtain i where i: "py_index (length (buckets h)) (hll_hash M v AND (hll_m h - 1)) = Inr i"
    and h': "h' = h\<lparr>buckets := (buckets h)[i := max (buckets h ! i) (rho (drop_bit (nat (hll_b h)) (hll_hash M v)))]\<rparr>"
    by (auto simp: hll_add_def Let_def split: if_splits sum.splits)
  from i have "i < length (buckets h)" by (rule py_index_Inr_less)
  then show ?thesis unfolding h' by (auto simp: nth_list_update)
qed

lemma hll_add_idem:
  assumes "hll_add M h v = Inr h'"
  shows "hll_add M h' v = Inr h'"
proof -
  from assms obtain i where i: "py_index (length (buckets h)) (hll_hash M v AND (hll_m h - 1)) = Inr i"
    and h': "h' = h\<lparr>buckets := (buckets h)[i := max (buckets h ! i) (rho (drop_bit (nat (hll_b h)) (hll_hash M v)))]\<rparr>"
    and b: "\<not> hll_b h < 0"
    by (auto simp: hll_add_def Let_def split: if_splits sum.splits)
  from i have "i < length (buckets h)" by (rule py_index_Inr_less)
  then show ?thesis unfolding h' using i b by (simp add: hll_add_def Let_def)
qed

lemma hll_add_all_wf:
  "hll_wf h \<Longrightarrow> \<exists>h'. hll_add_all M h vs = Inr h' \<and> hll_wf h' \<and> hll_b h' = hll_b h \<and> hll_m h' = hll_m h"
proof (induction vs arbitrary: h)
  case Nil
  then show ?case by simp
next
  case (Cons v vs)
  from hll_add_wf[OF Cons.prems, of M v] obtain h1 where h1: "hll_add M h v = Inr h1" "hll_wf h1"
    "hll_b h1 = hll_b h" "hll_m h1 = hll_m h" by blast
  from Cons.IH[OF h1(2)] h1 show ?case by auto
qed

lemma hll_add_all_mono:
  "hll_add_all M h vs = Inr h' \<Longrightarrow>
     length (buckets h') = length (buckets h) \<and> (\<forall>j<length (buckets h). buckets h ! j \<le> buckets h' ! j)"
proof (induction vs arbitrary: h)
  case Nil
  then show ?case by simp
next
  case (Cons v vs)
  from Cons.prems obtain h1 where h1: "hll_add M h v = Inr h1" "hll_add_all M h1 vs = Inr h'"
    by (auto split: sum.splits)
  from hll_add_mono[OF h1(1)] Cons.IH[OF h1(2)] show ?case by fastforce
qed

lemma hll_init_wf: "0 \<le> b \<Longrightarrow> \<exists>h. HyperLogLog_init b = Inr h \<and> hll_wf h \<and> hll_b h = b"
  by (simp add: HyperLogLog_init_def hll_wf_def)

text \<open>Definitions to unfold when evaluating at a concrete input.\<close>

lemmas bloom_eval = sample_filter_def sample_mmh3_def add_def check_def hashes_def hash_value_def
  py_index_def upt_conv_Cons eval_nat_numeral

lemmas hll_eval = sample_estimator_def sample_md5_def hll_add_def hll_hash_def py_index_def
  rho_eq_1 Let_def

text \<open>
  Claim C7 (monotone state). Over any sequence of calls that returns, the bit array
  keeps its length and every bit that was 1 stays 1; over any sequence of adds that
  returns, every bucket is at least what it was. On a filter of positive size as
  constructed, and on an estimator as constructed, every such sequence returns.
\<close>

theorem monotone_state:
  "(run H bf ops = Inr (bf', rs) \<longrightarrow>
      length (bit_array bf') = length (bit_array bf) \<and>
      (\<forall>i<length (bit_array bf). bit_array bf ! i \<longrightarrow> bit_array bf' ! i)) \<and>
   (hll_add_all M h vs = Inr h' \<longrightarrow>
      length (buckets h') = length (buckets h) \<and>
      (\<forall>j<length (buckets h). buckets h ! j \<le> buckets h' ! j)) \<and>
   (bf_wf bf \<longrightarrow> (\<exists>bf1 rs1. run H bf ops = Inr (bf1, rs1))) \<and>
   (hll_wf h \<longrightarrow> (\<exists>h1. hll_add_all M h vs = Inr h1))"
  using run_mono[of H bf ops bf' rs] hll_add_all_mono[of M h vs h'] run_wf[of bf H ops]
    hll_add_all_wf[of h M vs]
  by blast

theorem monotone_state_witness:
  "run sample_mmh3 sample_filter [Add ''a'', Check ''a'', Add ''x''] =
     Inr (\<lparr>bf_size = 10, num_hashes = 3,
            bit_array = [True, True, False, True, True, False, False, True, True, False]\<rparr>, [True]) \<and>
   hll_add_all sample_md5 sample_estimator [''a'', ''b'', ''c''] =
     Inr \<lparr>hll_b = 2, hll_m = 4, buckets = [0, 1, 0, 1]\<rparr> \<and>
   bf_wf sample_filter \<and> hll_wf sample_estimator"
proof -
  have r: "run sample_mmh3 sample_filter [Add ''a'', Check ''a'', Add ''x''] =
     Inr (\<lparr>bf_size = 10, num_hashes = 3,
            bit_array = [True, True, False, True, True, False, False, True, True, False]\<rparr>, [True])"
    by (simp add: bloom_eval)
  have h: "hll_add_all sample_md5 sample_estimator [''a'', ''b'', ''c''] =
     Inr \<lparr>hll_b = 2, hll_m = 4, buckets = [0, 1, 0, 1]\<rparr>"
    by (simp add: hll_eval)
  have w: "bf_wf sample_filter" "hll_wf sample_estimator"
    by (simp_all add: bf_wf_def hll_wf_def sample_filter_def sample_estimator_def)
  from monotone_state [of sample_mmh3 sample_filter "[Add ''a'', Check ''a'', Add ''x'']" _ _
      sample_md5 sample_estimator "[''a'', ''b'', ''c'']"] r h w
  show ?thesis by simp
qed

text \<open>
  Claim C8 (idempotence of add). From any state in which \<open>add(s)\<close> returns, a second
  \<open>add(s)\<close> returns the state the first one left, for the filter and for the estimator.
  On a filter of positive size as constructed, and on an estimator as constructed, the
  first \<open>add(s)\<close> returns.
\<close>

theorem add_idempotent:
  "(add H bf s = Inr bf1 \<longrightarrow> add H bf1 s = Inr bf1) \<and>
   (hll_add M h v = Inr h1 \<longrightarrow> hll_add M h1 v = Inr h1) \<and>
   (bf_wf bf \<longrightarrow> (\<exists>bf2. add H bf s = Inr bf2)) \<and>
   (hll_wf h \<longrightarrow> (\<exists>h2. hll_add M h v = Inr h2))"
  using probes_set_add[OF add_probes_set, of H bf s bf1] hll_add_idem[of M h v h1]
    add_wf[of bf H s] hll_add_wf[of h M v]
  by blast

theorem add_idempotent_witness:
  "add sample_mmh3 sample_filter ''a'' =
     Inr \<lparr>bf_size = 10, num_hashes = 3,
           bit_array = [False, True, False, False, True, False, False, False, True, False]\<rparr> \<and>
   add sample_mmh3 \<lparr>bf_size = 10, num_hashes = 3,
           bit_array = [False, True, False, False, True, False, False, False, True, False]\<rparr> ''a'' =
     Inr \<lparr>bf_size = 10, num_hashes = 3,
           bit_array = [False, True, False, False, True, False, False, False, True, False]\<rparr> \<and>
   hll_add sample_md5 sample_estimator ''a'' = Inr \<lparr>hll_b = 2, hll_m = 4, buckets = [0, 1, 0, 0]\<rparr> \<and>
   hll_add sample_md5 \<lparr>hll_b = 2, hll_m = 4, buckets = [0, 1, 0, 0]\<rparr> ''a'' =
     Inr \<lparr>hll_b = 2, hll_m = 4, buckets = [0, 1, 0, 0]\<rparr>"
proof -
  have a: "add sample_mmh3 sample_filter ''a'' =
     Inr \<lparr>bf_size = 10, num_hashes = 3,
           bit_array = [False, True, False, False, True, False, False, False, True, False]\<rparr>"
    by (simp add: bloom_eval)
  have h: "hll_add sample_md5 sample_estimator ''a'' =
     Inr \<lparr>hll_b = 2, hll_m = 4, buckets = [0, 1, 0, 0]\<rparr>"
    by (simp add: hll_eval)
  from add_idempotent [of sample_mmh3 sample_filter "''a''" _ sample_md5 sample_estimator "''a''"]
    a h
  show ?thesis by simp
qed

text \<open>
  Claim C9 (indices within the bit array). On a filter constructed with a positive size
  \<open>m\<close>, after any calls, \<open>_hashes\<close> yields \<open>num_hashes\<close> values, each in \<open>[0, m)\<close>
  whatever the sign of the hash, the bit array has \<open>m\<close> bits, and \<open>add\<close> and \<open>check\<close>
  return without an error.
\<close>

theorem hashes_within_bit_array:
  assumes "0 < m"
  shows "\<exists>bf0 bf rs. BloomFilter_init m k = Inr bf0 \<and> run H bf0 ops = Inr (bf, rs) \<and>
           length (bit_array bf) = nat m \<and> length (hashes H bf item) = nat k \<and>
           (\<forall>e \<in> set (hashes H bf item). \<exists>h. e = Inr h \<and> 0 \<le> h \<and> h < m) \<and>
           (\<exists>bf'. add H bf item = Inr bf') \<and> (\<exists>r. check H bf item = Inr r)"
proof -
  from init_wf[OF assms] obtain bf0 where i: "BloomFilter_init m k = Inr bf0" "bf_wf bf0"
    "bf_size bf0 = m" "num_hashes bf0 = k" by blast
  from run_wf[OF i(2)] i obtain bf rs where r: "run H bf0 ops = Inr (bf, rs)" "bf_wf bf"
    "bf_size bf = m" "num_hashes bf = k" by metis
  from r have "0 < bf_size bf" by (simp add: bf_wf_def)
  from hashes_in_range[OF this] r(3)
  have "\<forall>e \<in> set (hashes H bf item). \<exists>h. e = Inr h \<and> 0 \<le> h \<and> h < m" by blast
  moreover have "length (bit_array bf) = nat m" using r by (simp add: bf_wf_def)
  moreover have "length (hashes H bf item) = nat k" using r by (simp add: hashes_def)
  moreover from add_wf[OF r(2)] have "\<exists>bf'. add H bf item = Inr bf'" by blast
  ultimately show ?thesis using i(1) r(1) check_wf[OF r(2)] by blast
qed

theorem hashes_within_bit_array_witness:
  "(0::int) < 10 \<and> BloomFilter_init 10 3 = Inr sample_filter \<and>
   run sample_mmh3 sample_filter [Add ''x''] =
     Inr (\<lparr>bf_size = 10, num_hashes = 3,
            bit_array = [True, False, False, True, False, False, False, True, False, False]\<rparr>, []) \<and>
   map (\<lambda>i. sint (sample_mmh3 ''a'' i)) [0, 1, 2] = [- 217768942, - 217728439, - 217687936] \<and>
   hashes sample_mmh3 \<lparr>bf_size = 10, num_hashes = 3,
            bit_array = [True, False, False, True, False, False, False, True, False, False]\<rparr> ''a'' =
     [Inr 8, Inr 1, Inr 4]"
  using hashes_within_bit_array [of 10 3 sample_mmh3 "[Add ''x'']" "''a''"]
  by (simp add: bloom_eval BloomFilter_init_def)

section \<open>Facts about the estimate\<close>

lemma pow2_neg_pos: "0 < pow2_neg x"
  by (simp add: pow2_neg_def)

lemma pow2_neg_le_1: "0 \<le> x \<Longrightarrow> pow2_neg x \<le> 1"
  by (auto simp: pow2_neg_def divide_le_eq_1 intro: one_le_power)

lemma sum_pow2_neg_pos: "xs \<noteq> [] \<Longrightarrow> 0 < sum_list (map pow2_neg xs)"
proof (induction xs)
  case Nil
  then show ?case by simp
next
  case (Cons x xs)
  have "0 \<le> sum_list (map pow2_neg xs)"
    by (rule sum_list_nonneg) (auto intro: less_imp_le pow2_neg_pos)
  with pow2_neg_pos[of x] show ?case by simp
qed

lemma sum_pow2_neg_le_length:
  "(\<And>x. x \<in> set xs \<Longrightarrow> 0 \<le> x) \<Longrightarrow> sum_list (map pow2_neg xs) \<le> real (length xs)"
proof (induction xs)
  case Nil
  show ?case by simp
next
  case (Cons x xs)
  have "pow2_neg x \<le> 1" by (rule pow2_neg_le_1) (simp add: Cons.prems)
  moreover have "sum_list (map pow2_neg xs) \<le> real (length xs)"
    by (rule Cons.IH) (simp add: Cons.prems)
  ultimately show ?case by simp
qed

lemma sum_pow2_neg_zeros: "sum_list (replicate n (pow2_neg 0)) = real n"
  by (induction n) (simp_all add: pow2_neg_def)

lemma hll_count_wf:
  assumes "hll_wf h"
  shows "hll_count h =
           Inr (0.7213 / (1 + 1.079 / real_of_int (hll_m h)) * (real_of_int (hll_m h))\<^sup>2 /
                sum_list (map pow2_neg (buckets h)))"
proof -
  from assms have m: "hll_m h = 2 ^ nat (hll_b h)" and len: "length (buckets h) = nat (hll_m h)"
    by (simp_all add: hll_wf_def)
  from m have mpos: "0 < hll_m h" by simp
  with len have "buckets h \<noteq> []" by auto
  then have Z: "0 < sum_list (map pow2_neg (buckets h))" by (rule sum_pow2_neg_pos)
  from mpos have "0 < 1 + 1.079 / real_of_int (hll_m h)" by (simp add: add_pos_nonneg)
  with mpos Z show ?thesis by (simp add: hll_count_def Let_def)
qed

lemma raw_estimate_lower_bound:
  fixes a m Z :: real
  assumes "0 < a" and "0 < m" and "0 < Z" and "Z \<le> m"
  shows "a * m \<le> a * m\<^sup>2 / Z"
proof -
  have "m * Z \<le> m * m" using assms by (simp add: mult_left_mono)
  then have "m \<le> m\<^sup>2 / Z" using assms(3) by (simp add: pos_le_divide_eq power2_eq_square)
  then have "a * m \<le> a * (m\<^sup>2 / Z)"
    using mult_left_mono[of m "m\<^sup>2 / Z" a] assms(1) by simp
  then show ?thesis by (simp only: times_divide_eq_right)
qed

lemma alpha_pos:
  fixes m :: real
  assumes "0 < m"
  shows "0 < 0.7213 / (1 + 1.079 / m)"
proof -
  from assms have "0 < 1 + 1.079 / m" by (simp add: add_pos_nonneg)
  then show ?thesis by (rule divide_pos_pos[rotated]) simp
qed

lemma hll_init_eq:
  "0 \<le> b \<Longrightarrow> HyperLogLog_init b =
     Inr \<lparr>hll_b = b, hll_m = 2 ^ nat b, buckets = replicate (2 ^ nat b) 0\<rparr>"
  by (simp add: HyperLogLog_init_def nat_power_eq)

text \<open>
  Claim C3 (estimate of a fresh estimator), as amended. \<open>count\<close> has no case for the
  empty state: for \<open>b\<close> from 0 to 24, which covers the supported range, a freshly
  constructed estimator returns the raw estimate, which is then
  \<open>0.7213 / (1 + 1.079 / m) * m\<close> for \<open>m = 2 ^ b\<close> and positive, not 0. It returns
  without raising: no divisor is 0.
\<close>

theorem count_of_fresh_estimator:
  assumes "0 \<le> b" and "b \<le> 24"
  shows "\<exists>h. HyperLogLog_init b = Inr h \<and>
           hll_count h = Inr (0.7213 / (1 + 1.079 / 2 ^ nat b) * 2 ^ nat b) \<and>
           (0::real) < 0.7213 / (1 + 1.079 / 2 ^ nat b) * 2 ^ nat b"
proof -
  let ?h = "\<lparr>hll_b = b, hll_m = 2 ^ nat b, buckets = replicate (2 ^ nat b) 0\<rparr>"
  let ?m = "(2::real) ^ nat b"
  have i: "HyperLogLog_init b = Inr ?h" using assms(1) by (rule hll_init_eq)
  have wf: "hll_wf ?h" using assms(1) by (simp add: hll_wf_def)
  have Z: "sum_list (map pow2_neg (buckets ?h)) = ?m" by (simp add: sum_pow2_neg_zeros)
  have "hll_count ?h = Inr (0.7213 / (1 + 1.079 / ?m) * ?m\<^sup>2 / ?m)"
    using hll_count_wf[OF wf] Z by simp
  also have "0.7213 / (1 + 1.079 / ?m) * ?m\<^sup>2 / ?m = 0.7213 / (1 + 1.079 / ?m) * ?m"
    by (simp add: power2_eq_square)
  finally have c: "hll_count ?h = Inr (0.7213 / (1 + 1.079 / ?m) * ?m)" .
  have "0 < 0.7213 / (1 + 1.079 / ?m) * ?m"
    by (rule mult_pos_pos[OF alpha_pos]) simp_all
  with i c show ?thesis by blast
qed

theorem count_of_fresh_estimator_witness:
  "(0::int) \<le> 10 \<and> (10::int) \<le> 24 \<and>
   HyperLogLog_init 10 = Inr \<lparr>hll_b = 10, hll_m = 1024, buckets = replicate 1024 0\<rparr> \<and>
   hll_count \<lparr>hll_b = 10, hll_m = 1024, buckets = replicate 1024 0\<rparr> = Inr (3781689344 / 5125395)"
  using count_of_fresh_estimator [of 10]
  by (simp add: HyperLogLog_init_def)

text \<open>\<open>HyperLogLog(4).count()\<close> is about 10.81, not 0.\<close>

theorem count_of_fresh_estimator_counterexample:
  "HyperLogLog_init 4 = Inr \<lparr>hll_b = 4, hll_m = 16, buckets = replicate 16 0\<rparr> \<and>
   hll_count \<lparr>hll_b = 4, hll_m = 16, buckets = replicate 16 0\<rparr> = Inr (184652800 / 17079000) \<and>
   hll_count \<lparr>hll_b = 4, hll_m = 16, buckets = replicate 16 0\<rparr> \<noteq> Inr 0"
  by (simp add: HyperLogLog_init_def hll_count_def sum_pow2_neg_zeros)

text \<open>
  Claim C4 (small-range correction), as amended. \<open>count\<close> has no linear-counting case:
  in every state with \<open>m = 2 ^ b\<close> buckets it returns the raw estimate
  \<open>0.7213 / (1 + 1.079 / m) * m\<^sup>2 / Z\<close>, also where that is at most \<open>2.5 * m\<close> and
  some bucket is 0. As no bucket is negative, \<open>Z \<le> m\<close> and the estimate is at least
  \<open>0.7213 / (1 + 1.079 / m) * m\<close>; for \<open>b = 4\<close> that is more than 10.8, whatever was
  added.
\<close>

theorem count_returns_raw_estimate:
  assumes "hll_wf h" and "\<forall>x \<in> set (buckets h). 0 \<le> x"
  shows "hll_count h =
           Inr (0.7213 / (1 + 1.079 / real_of_int (hll_m h)) * (real_of_int (hll_m h))\<^sup>2 /
                sum_list (map pow2_neg (buckets h))) \<and>
         0.7213 / (1 + 1.079 / real_of_int (hll_m h)) * real_of_int (hll_m h) \<le>
           0.7213 / (1 + 1.079 / real_of_int (hll_m h)) * (real_of_int (hll_m h))\<^sup>2 /
             sum_list (map pow2_neg (buckets h)) \<and>
         (hll_b h = 4 \<longrightarrow>
            10.8 < 0.7213 / (1 + 1.079 / real_of_int (hll_m h)) * (real_of_int (hll_m h))\<^sup>2 /
              sum_list (map pow2_neg (buckets h)))"
proof -
  let ?m = "real_of_int (hll_m h)"
  let ?Z = "sum_list (map pow2_neg (buckets h))"
  from assms(1) have m: "hll_m h = 2 ^ nat (hll_b h)" and len: "length (buckets h) = nat (hll_m h)"
    by (simp_all add: hll_wf_def)
  from m have mpos: "0 < ?m" by simp
  with len have "buckets h \<noteq> []" by auto
  then have Zpos: "0 < ?Z" by (rule sum_pow2_neg_pos)
  have "?Z \<le> real (length (buckets h))"
    by (rule sum_pow2_neg_le_length) (use assms(2) in blast)
  also have "\<dots> = ?m" using len mpos by simp
  finally have Zle: "?Z \<le> ?m" .
  have lb: "0.7213 / (1 + 1.079 / ?m) * ?m \<le> 0.7213 / (1 + 1.079 / ?m) * ?m\<^sup>2 / ?Z"
    using alpha_pos[OF mpos] mpos Zpos Zle by (rule raw_estimate_lower_bound)
  have "10.8 < 0.7213 / (1 + 1.079 / ?m) * ?m\<^sup>2 / ?Z" if "hll_b h = 4"
  proof -
    from that m have "?m = 16" by simp
    with lb show ?thesis by simp
  qed
  with hll_count_wf[OF assms(1)] lb show ?thesis by blast
qed

theorem count_returns_raw_estimate_witness:
  "hll_wf \<lparr>hll_b = 4, hll_m = 16, buckets = [0, 1, 1, 1, 0, 0, 0, 0, 0, 0, 0, 0, 0, 1, 0, 1]\<rparr> \<and>
   list_all ((\<le>) 0) [0, 1, 1, 1, 0, 0, 0, 0, 0, 0, 0, 0, 0, 1, 0, (1::int)] \<and>
   hll_count \<lparr>hll_b = 4, hll_m = 16, buckets = [0, 1, 1, 1, 0, 0, 0, 0, 0, 0, 0, 0, 0, 1, 0, 1]\<rparr> =
     Inr (29544448 / 2305665) \<and>
   (10.8::real) < 29544448 / 2305665"
  using count_returns_raw_estimate
    [of "\<lparr>hll_b = 4, hll_m = 16, buckets = [0, 1, 1, 1, 0, 0, 0, 0, 0, 0, 0, 0, 0, 1, 0, 1]\<rparr>"]
  by (simp add: hll_wf_def pow2_neg_def)

text \<open>
  \<open>HyperLogLog(4)\<close> after \<open>add\<close> of the five strings \<open>a\<close> to \<open>e\<close>: five buckets are 1
  and eleven are 0, the raw estimate is about 12.81, which is below 40, and \<open>count\<close>
  returns it; linear counting would give \<open>16 * ln (16 / 11)\<close>, about 6.
\<close>

theorem count_returns_raw_estimate_counterexample:
  "HyperLogLog_init 4 = Inr \<lparr>hll_b = 4, hll_m = 16, buckets = replicate 16 0\<rparr> \<and>
   hll_add_all sample_md5 \<lparr>hll_b = 4, hll_m = 16, buckets = replicate 16 0\<rparr>
       [''a'', ''b'', ''c'', ''d'', ''e''] =
     Inr \<lparr>hll_b = 4, hll_m = 16, buckets = [0, 1, 1, 1, 0, 0, 0, 0, 0, 0, 0, 0, 0, 1, 0, 1]\<rparr> \<and>
   count_list [0, 1, 1, 1, 0, 0, 0, 0, 0, 0, 0, 0, 0, 1, 0, 1::int] 0 = 11 \<and>
   hll_count \<lparr>hll_b = 4, hll_m = 16, buckets = [0, 1, 1, 1, 0, 0, 0, 0, 0, 0, 0, 0, 0, 1, 0, 1]\<rparr> =
     Inr (29544448 / 2305665) \<and>
   (29544448 / 2305665 :: real) \<le> 2.5 * 16 \<and>
   hll_count \<lparr>hll_b = 4, hll_m = 16, buckets = [0, 1, 1, 1, 0, 0, 0, 0, 0, 0, 0, 0, 0, 1, 0, 1]\<rparr> \<noteq>
     Inr (16 * ln (16 / 11)) \<and>
   (5 + 2 :: real) < 29544448 / 2305665"
proof -
  have a: "hll_add_all sample_md5 \<lparr>hll_b = 4, hll_m = 16, buckets = replicate 16 0\<rparr>
       [''a'', ''b'', ''c'', ''d'', ''e''] =
     Inr \<lparr>hll_b = 4, hll_m = 16, buckets = [0, 1, 1, 1, 0, 0, 0, 0, 0, 0, 0, 0, 0, 1, 0, 1]\<rparr>"
    apply (simp add: sample_md5_def hll_add_def hll_hash_def py_index_def rho_eq_1 Let_def)
    apply (simp add: eval_nat_numeral)
    done
  have c: "hll_count \<lparr>hll_b = 4, hll_m = 16, buckets = [0, 1, 1, 1, 0, 0, 0, 0, 0, 0, 0, 0, 0, 1, 0, 1]\<rparr> =
     Inr (29544448 / 2305665)"
    by (simp add: hll_count_def pow2_neg_def)
  have "ln (16 / 11 :: real) \<le> 16 / 11 - 1" by (rule ln_le_minus_one) simp
  then have "16 * ln (16 / 11 :: real) < 29544448 / 2305665" by simp
  then have n: "(29544448 / 2305665 :: real) \<noteq> 16 * ln (16 / 11)" by simp
  have i: "HyperLogLog_init 4 = Inr \<lparr>hll_b = 4, hll_m = 16, buckets = replicate 16 0\<rparr>"
    by (simp add: HyperLogLog_init_def)
  show ?thesis using a c n i by simp
qed

lemma hashes_zero_size:
  assumes "bf_size bf = 0" and "0 < num_hashes bf"
  shows "\<exists>hs. hashes H bf item = Inl ZeroDivisionError # hs"
proof -
  from assms(2) have "[0..<nat (num_hashes bf)] = 0 # [1..<nat (num_hashes bf)]"
    by (simp add: upt_conv_Cons)
  with assms(1) show ?thesis by (simp add: hashes_def hash_value_def)
qed

text \<open>
  Claim C5 (rejection of invalid construction), as amended. Neither constructor checks
  its parameters, and the source has no ConfigurationError: \<open>BloomFilter(size, k)\<close>
  returns a filter of \<open>size\<close> zero bits for every \<open>size\<close> from 0 to \<open>2 ^ 25\<close>, 0
  included, and every \<open>k\<close>, 0 included; \<open>HyperLogLog(b)\<close> returns an estimator of
  \<open>2 ^ b\<close> zero buckets for every \<open>b\<close> from 0 to 25, so for 0 and for 25, which is
  above the supported 24. Beyond these sizes the allocation itself can fail, which is
  the platform's limit and no validation. A capacity of 0 shows only later: with
  \<open>k > 0\<close>, \<open>add\<close> and \<open>check\<close> on \<open>BloomFilter(0, k)\<close> raise ZeroDivisionError.
\<close>

theorem constructors_do_not_validate:
  "(0 \<le> sz \<and> sz \<le> 2 ^ 25 \<longrightarrow>
      BloomFilter_init sz k =
        Inr \<lparr>bf_size = sz, num_hashes = k, bit_array = replicate (nat sz) False\<rparr>) \<and>
   (0 \<le> b \<and> b \<le> 25 \<longrightarrow>
      HyperLogLog_init b =
        Inr \<lparr>hll_b = b, hll_m = 2 ^ nat b, buckets = replicate (2 ^ nat b) 0\<rparr>) \<and>
   (0 < k \<longrightarrow>
      add H \<lparr>bf_size = 0, num_hashes = k, bit_array = []\<rparr> item = Inl ZeroDivisionError \<and>
      check H \<lparr>bf_size = 0, num_hashes = k, bit_array = []\<rparr> item = Inl ZeroDivisionError)"
proof -
  have "add H \<lparr>bf_size = 0, num_hashes = k, bit_array = []\<rparr> item = Inl ZeroDivisionError \<and>
        check H \<lparr>bf_size = 0, num_hashes = k, bit_array = []\<rparr> item = Inl ZeroDivisionError"
    if "0 < k"
  proof -
    from that hashes_zero_size[of "\<lparr>bf_size = 0, num_hashes = k, bit_array = []\<rparr>" H item]
    obtain hs where "hashes H \<lparr>bf_size = 0, num_hashes = k, bit_array = []\<rparr> item =
      Inl ZeroDivisionError # hs" by auto
    then show ?thesis by (simp add: add_def check_def)
  qed
  then show ?thesis by (simp add: BloomFilter_init_def hll_init_eq)
qed

theorem constructors_do_not_validate_witness:
  "(0::int) \<le> 1000 \<and> (1000::int) \<le> 2 ^ 25 \<and> (0::int) \<le> 25 \<and> (25::int) \<le> 25 \<and>
   BloomFilter_init 1000 0 =
     Inr \<lparr>bf_size = 1000, num_hashes = 0, bit_array = replicate 1000 False\<rparr> \<and>
   HyperLogLog_init 25 = Inr \<lparr>hll_b = 25, hll_m = 33554432, buckets = replicate 33554432 0\<rparr> \<and>
   BloomFilter_init 0 1 = Inr \<lparr>bf_size = 0, num_hashes = 1, bit_array = []\<rparr> \<and>
   add sample_mmh3 \<lparr>bf_size = 0, num_hashes = 1, bit_array = []\<rparr> ''a'' = Inl ZeroDivisionError \<and>
   check sample_mmh3 \<lparr>bf_size = 0, num_hashes = 1, bit_array = []\<rparr> ''a'' = Inl ZeroDivisionError"
  using constructors_do_not_validate [of 1000 0 25 sample_mmh3 "''a''"]
    constructors_do_not_validate [of 0 1 0 sample_mmh3 "''a''"]
  by simp

text \<open>
  \<open>BloomFilter(capacity=0, hashCount=3)\<close> and \<open>HyperLogLog(0)\<close> are constructed: an empty
  bit array, and one bucket.
\<close>

theorem constructors_do_not_validate_counterexample:
  "BloomFilter_init 0 3 = Inr \<lparr>bf_size = 0, num_hashes = 3, bit_array = []\<rparr> \<and>
   HyperLogLog_init 0 = Inr \<lparr>hll_b = 0, hll_m = 1, buckets = [0]\<rparr>"
  by (simp add: BloomFilter_init_def HyperLogLog_init_def)

section \<open>Facts about check\_password\_uniqueness\<close>

lemma check_loop_True_probes:
  "check_loop ba hs = Inr True \<Longrightarrow> e \<in> set hs \<Longrightarrow>
     \<exists>h j. e = Inr h \<and> py_index (length ba) h = Inr j \<and> ba ! j"
proof (induction ba hs rule: check_loop.induct)
  case (3 ba h hs)
  from "3.prems"(1) obtain j where j: "py_index (length ba) h = Inr j" "ba ! j"
    and rest: "check_loop ba hs = Inr True"
    by (auto split: sum.splits if_splits)
  show ?case
  proof (cases "e = Inr h")
    case True
    with j show ?thesis by blast
  next
    case False
    with "3.prems"(2) have "e \<in> set hs" by simp
    from "3.IH"[OF j rest this] show ?thesis .
  qed
qed simp_all

lemma check_True_probes_set: "check H bf s = Inr True \<Longrightarrow> probes_set H bf s"
  unfolding check_def probes_set_def using check_loop_True_probes by blast

lemma cpu_loop_invalid_step:
  "\<not> valid_password p \<Longrightarrow> hashable p \<Longrightarrow>
     cpu_loop H bf res (p # ps) = cpu_loop H bf (res(p \<mapsto> Incorrect)) ps"
  by (cases p) (simp_all add: cpu_loop.simps(2))

lemma cpu_loop_used_step:
  "s \<noteq> [] \<Longrightarrow> check H bf s = Inr True \<Longrightarrow>
     cpu_loop H bf res (PyStr s # ps) = cpu_loop H bf (res(PyStr s \<mapsto> Already_used)) ps"
  by (simp add: cpu_loop.simps(2))

lemma cpu_loop_unique_step:
  "s \<noteq> [] \<Longrightarrow> check H bf s = Inr False \<Longrightarrow> add H bf s = Inr bf1 \<Longrightarrow>
     cpu_loop H bf res (PyStr s # ps) = cpu_loop H bf1 (res(PyStr s \<mapsto> Unique)) ps"
  by (simp add: cpu_loop.simps(2))

lemma cpu_loop_Cons_cases:
  assumes "cpu_loop H bf res (p # ps) = Inr (bf', res')"
  obtains
    (invalid) "\<not> valid_password p" "hashable p"
      "cpu_loop H bf (res(p \<mapsto> Incorrect)) ps = Inr (bf', res')"
  | (used) s where "p = PyStr s" "s \<noteq> []" "check H bf s = Inr True"
      "cpu_loop H bf (res(p \<mapsto> Already_used)) ps = Inr (bf', res')"
  | (unique) s bf1 where "p = PyStr s" "s \<noteq> []" "check H bf s = Inr False"
      "add H bf s = Inr bf1" "cpu_loop H bf1 (res(p \<mapsto> Unique)) ps = Inr (bf', res')"
proof (cases p)
  case (PyStr s)
  note [simp] = cpu_loop.simps(2)
  show ?thesis
  proof (cases "s = []")
    case True
    with PyStr assms invalid show ?thesis by simp
  next
    case False
    with PyStr assms obtain r where r: "check H bf s = Inr r" by (auto split: sum.splits)
    show ?thesis
    proof (cases r)
      case True
      with r PyStr False assms used show ?thesis by simp
    next
      case nr: False
      with r PyStr False assms obtain bf1 where "add H bf s = Inr bf1"
        by (auto split: sum.splits)
      with nr r PyStr False assms unique show ?thesis by simp
    qed
  qed
next
  case (PyInt n)
  with assms invalid show ?thesis by (simp add: cpu_loop.simps(2))
next
  case PyNone
  with assms invalid show ?thesis by (simp add: cpu_loop.simps(2))
next
  case (PyList xs)
  with assms show ?thesis by (simp add: cpu_loop.simps(2))
qed

lemma cpu_loop_Cons_bind:
  "cpu_loop H bf res (p # ps) =
     (case cpu_loop H bf res [p] of
        Inl e \<Rightarrow> Inl e
      | Inr (bf1, r1) \<Rightarrow> cpu_loop H bf1 r1 ps)"
  by (cases p) (simp_all add: cpu_loop.simps(2) split: sum.splits)

lemma cpu_loop_append:
  "cpu_loop H bf res (xs @ ys) =
     (case cpu_loop H bf res xs of
        Inl e \<Rightarrow> Inl e
      | Inr (bf1, r1) \<Rightarrow> cpu_loop H bf1 r1 ys)"
proof (induction xs arbitrary: bf res)
  case Nil
  show ?case by simp
next
  case (Cons p xs)
  show ?case
  proof (cases "cpu_loop H bf res [p]")
    case (Inl e)
    with cpu_loop_Cons_bind[of H bf res p "xs @ ys"] cpu_loop_Cons_bind[of H bf res p xs]
    show ?thesis by simp
  next
    case (Inr st)
    obtain bf1 r1 where st: "st = (bf1, r1)" by (cases st)
    from Inr st cpu_loop_Cons_bind[of H bf res p "xs @ ys"]
    have l: "cpu_loop H bf res ((p # xs) @ ys) = cpu_loop H bf1 r1 (xs @ ys)" by simp
    from Inr st cpu_loop_Cons_bind[of H bf res p xs]
    have r: "cpu_loop H bf res (p # xs) = cpu_loop H bf1 r1 xs" by simp
    show ?thesis unfolding l r by (rule Cons.IH)
  qed
qed

lemma cpu_loop_total:
  "bf_wf bf \<Longrightarrow> (\<And>p. p \<in> set ps \<Longrightarrow> hashable p) \<Longrightarrow>
     \<exists>bf' res'. cpu_loop H bf res ps = Inr (bf', res') \<and> bf_wf bf'"
proof (induction ps arbitrary: bf res)
  case Nil
  then show ?case by simp
next
  case (Cons p ps)
  have hp: "hashable p" by (rule Cons.prems(2)) simp
  have rest: "\<exists>bf' res'. cpu_loop H b r ps = Inr (bf', res') \<and> bf_wf bf'" if "bf_wf b" for b r
    by (rule Cons.IH[OF that]) (simp add: Cons.prems(2))
  show ?case
  proof (cases "valid_password p")
    case False
    with hp rest[OF Cons.prems(1)] show ?thesis by (simp add: cpu_loop_invalid_step)
  next
    case True
    then obtain s where s: "p = PyStr s" "s \<noteq> []" by (cases p) auto
    from check_wf[OF Cons.prems(1), of H s] obtain r where r: "check H bf s = Inr r" ..
    show ?thesis
    proof (cases r)
      case True
      with r s rest[OF Cons.prems(1)] show ?thesis by (simp add: cpu_loop_used_step)
    next
      case False
      from add_wf[OF Cons.prems(1), of H s] obtain bf1 where a: "add H bf s = Inr bf1" "bf_wf bf1"
        by blast
      with False r s rest[OF a(2)] show ?thesis by (simp add: cpu_loop_unique_step)
    qed
  qed
qed

lemma cpu_loop_dom:
  "cpu_loop H bf res ps = Inr (bf', res') \<Longrightarrow> dom res' = dom res \<union> set ps"
proof (induction ps arbitrary: bf res)
  case Nil
  then show ?case by simp
next
  case (Cons p ps)
  from Cons.prems show ?case
  proof (cases rule: cpu_loop_Cons_cases)
    case invalid
    have "dom res' = dom (res(p \<mapsto> Incorrect)) \<union> set ps" using invalid(3) by (rule Cons.IH)
    then show ?thesis by simp
  next
    case (used s)
    have "dom res' = dom (res(p \<mapsto> Already_used)) \<union> set ps" using used(4) by (rule Cons.IH)
    then show ?thesis by simp
  next
    case (unique s bf1)
    have "dom res' = dom (res(p \<mapsto> Unique)) \<union> set ps" using unique(5) by (rule Cons.IH)
    then show ?thesis by simp
  qed
qed

lemma cpu_loop_other_key:
  "cpu_loop H bf res ps = Inr (bf', res') \<Longrightarrow> q \<notin> set ps \<Longrightarrow> res' q = res q"
proof (induction ps arbitrary: bf res)
  case Nil
  then show ?case by simp
next
  case (Cons p ps)
  from Cons.prems(2) have q: "q \<notin> set ps" "q \<noteq> p" by auto
  from Cons.prems(1) show ?case
  proof (cases rule: cpu_loop_Cons_cases)
    case invalid
    have "res' q = (res(p \<mapsto> Incorrect)) q" using invalid(3) q(1) by (rule Cons.IH)
    with q(2) show ?thesis by simp
  next
    case (used s)
    have "res' q = (res(p \<mapsto> Already_used)) q" using used(4) q(1) by (rule Cons.IH)
    with q(2) show ?thesis by simp
  next
    case (unique s bf1)
    have "res' q = (res(p \<mapsto> Unique)) q" using unique(5) q(1) by (rule Cons.IH)
    with q(2) show ?thesis by simp
  qed
qed

lemma cpu_loop_invalid_status:
  "cpu_loop H bf res ps = Inr (bf', res') \<Longrightarrow> q \<in> set ps \<Longrightarrow> \<not> valid_password q \<Longrightarrow>
     res' q = Some Incorrect"
proof (induction ps arbitrary: bf res)
  case Nil
  then show ?case by simp
next
  case (Cons p ps)
  show ?case
  proof (cases "q \<in> set ps")
    case True
    from Cons.prems(1) show ?thesis
    proof (cases rule: cpu_loop_Cons_cases)
      case invalid
      from invalid(3) True Cons.prems(3) show ?thesis by (rule Cons.IH)
    next
      case (used s)
      from used(4) True Cons.prems(3) show ?thesis by (rule Cons.IH)
    next
      case (unique s bf1)
      from unique(5) True Cons.prems(3) show ?thesis by (rule Cons.IH)
    qed
  next
    case False
    with Cons.prems(2) have qp: "q = p" by simp
    from Cons.prems(1) show ?thesis
    proof (cases rule: cpu_loop_Cons_cases)
      case invalid
      from cpu_loop_other_key[OF invalid(3) False] qp show ?thesis by simp
    next
      case (used s)
      with qp Cons.prems(3) show ?thesis by simp
    next
      case (unique s bf1)
      with qp Cons.prems(3) show ?thesis by simp
    qed
  qed
qed

lemma cpu_loop_keeps_probes_set:
  "cpu_loop H bf res ps = Inr (bf', res') \<Longrightarrow> probes_set H bf item \<Longrightarrow> probes_set H bf' item"
proof (induction ps arbitrary: bf res)
  case Nil
  then show ?case by simp
next
  case (Cons p ps)
  from Cons.prems(1) show ?case
  proof (cases rule: cpu_loop_Cons_cases)
    case invalid
    from Cons.IH[OF invalid(3) Cons.prems(2)] show ?thesis .
  next
    case (used s)
    from Cons.IH[OF used(4) Cons.prems(2)] show ?thesis .
  next
    case (unique s bf1)
    from Cons.IH[OF unique(5) add_keeps_probes_set[OF unique(4) Cons.prems(2)]] show ?thesis .
  qed
qed

lemma cpu_loop_seen:
  "cpu_loop H bf res ps = Inr (bf', res') \<Longrightarrow> probes_set H bf s \<Longrightarrow> s \<noteq> [] \<Longrightarrow>
     PyStr s \<in> set ps \<Longrightarrow> res' (PyStr s) = Some Already_used"
proof (induction ps arbitrary: bf res)
  case Nil
  then show ?case by simp
next
  case (Cons p ps)
  show ?case
  proof (cases "PyStr s \<in> set ps")
    case True
    from Cons.prems(1) show ?thesis
    proof (cases rule: cpu_loop_Cons_cases)
      case invalid
      from Cons.IH[OF invalid(3) Cons.prems(2,3) True] show ?thesis .
    next
      case (used t)
      from Cons.IH[OF used(4) Cons.prems(2,3) True] show ?thesis .
    next
      case (unique t bf1)
      from Cons.IH[OF unique(5) add_keeps_probes_set[OF unique(4) Cons.prems(2)] Cons.prems(3) True]
      show ?thesis .
    qed
  next
    case False
    with Cons.prems(4) have p: "p = PyStr s" by simp
    have c: "check H bf s = Inr True" using Cons.prems(2) by (rule probes_set_check)
    from Cons.prems(1) p c Cons.prems(3)
    have "cpu_loop H bf (res(PyStr s \<mapsto> Already_used)) ps = Inr (bf', res')"
      by (simp add: cpu_loop_used_step)
    from cpu_loop_other_key[OF this False] show ?thesis by simp
  qed
qed

lemma cpu_loop_filter_valid:
  "cpu_loop H bf res ps = Inr (bf', res') \<Longrightarrow>
     \<exists>r. cpu_loop H bf res0 (filter valid_password ps) = Inr (bf', r)"
proof (induction ps arbitrary: bf res res0)
  case Nil
  then show ?case by simp
next
  case (Cons p ps)
  from Cons.prems show ?case
  proof (cases rule: cpu_loop_Cons_cases)
    case invalid
    have eq: "filter valid_password (p # ps) = filter valid_password ps"
      using invalid(1) by simp
    show ?thesis unfolding eq using invalid(3) by (rule Cons.IH)
  next
    case (used s)
    have eq: "cpu_loop H bf res0 (filter valid_password (p # ps)) =
        cpu_loop H bf (res0(p \<mapsto> Already_used)) (filter valid_password ps)"
      using used(1,2,3) by (simp add: cpu_loop_used_step)
    show ?thesis unfolding eq using used(4) by (rule Cons.IH)
  next
    case (unique s bf1)
    have eq: "cpu_loop H bf res0 (filter valid_password (p # ps)) =
        cpu_loop H bf1 (res0(p \<mapsto> Unique)) (filter valid_password ps)"
      using unique(1,2,3,4) by (simp add: cpu_loop_unique_step)
    show ?thesis unfolding eq using unique(5) by (rule Cons.IH)
  qed
qed

lemma cpu_loop_occurrence:
  assumes "cpu_loop H bf res (xs @ PyStr s # ys) = Inr (bf', res')" and "s \<noteq> []"
  shows "\<exists>bf1 r1 c bf2.
           cpu_loop H bf res xs = Inr (bf1, r1) \<and> check H bf1 s = Inr c \<and>
           (if c then bf2 = bf1 else add H bf1 s = Inr bf2) \<and>
           cpu_loop H bf res (xs @ [PyStr s]) =
             Inr (bf2, r1(PyStr s \<mapsto> (if c then Already_used else Unique))) \<and>
           cpu_loop H bf2 (r1(PyStr s \<mapsto> (if c then Already_used else Unique))) ys =
             Inr (bf', res') \<and>
           probes_set H bf2 s"
proof -
  from assms(1) obtain bf1 r1 where x: "cpu_loop H bf res xs = Inr (bf1, r1)"
    and y: "cpu_loop H bf1 r1 (PyStr s # ys) = Inr (bf', res')"
    by (auto simp: cpu_loop_append split: sum.splits)
  have app: "cpu_loop H bf res (xs @ [PyStr s]) = cpu_loop H bf1 r1 [PyStr s]"
    using x by (simp add: cpu_loop_append)
  from y show ?thesis
  proof (cases rule: cpu_loop_Cons_cases)
    case invalid
    with assms(2) show ?thesis by simp
  next
    case (used t)
    then have t: "t = s" by simp
    have "cpu_loop H bf1 r1 [PyStr s] = Inr (bf1, r1(PyStr s \<mapsto> Already_used))"
      using used(3) assms(2) t by (simp add: cpu_loop_used_step)
    moreover have "probes_set H bf1 s" using used(3) t by (simp add: check_True_probes_set)
    ultimately show ?thesis using x app used(3,4) t by auto
  next
    case (unique t bf2)
    then have t: "t = s" by simp
    have "cpu_loop H bf1 r1 [PyStr s] = Inr (bf2, r1(PyStr s \<mapsto> Unique))"
      using unique(3,4) assms(2) t by (simp add: cpu_loop_unique_step)
    moreover have "probes_set H bf2 s" using unique(4) t by (simp add: add_probes_set)
    ultimately show ?thesis using x app unique(3,4,5) t by auto
  qed
qed

text \<open>
  Claim C10 (check\_password\_uniqueness), as amended. On a filter of positive size as
  constructed, and a list whose elements are hashable, the function returns a dictionary
  whose keys are the elements of the list. Every element that is not a non-empty string
  is mapped to the rejection, and such elements do not touch the filter: the list without
  them leaves the same filter. At each occurrence of a non-empty string \<open>s\<close>, after the
  prefix \<open>xs\<close>: \<open>check(s)\<close> returns some \<open>c\<close>; the entry written is already-used if \<open>c\<close>,
  and otherwise unique, with \<open>add(s)\<close> applied to the filter once. The returned entry is
  the one written at the last occurrence, so a string that occurs again later in the
  list is mapped to already-used; \<open>check(s)\<close> is True on the filter returned.
\<close>

theorem check_password_uniqueness_statuses:
  assumes "bf_wf bf" and "\<forall>p \<in> set passwords. hashable p"
  shows "\<exists>bf' results.
           check_password_uniqueness H bf passwords = Inr (bf', results) \<and>
           dom results = set passwords \<and>
           (\<forall>p \<in> set passwords. \<not> valid_password p \<longrightarrow> results p = Some Incorrect) \<and>
           (\<exists>r. check_password_uniqueness H bf (filter valid_password passwords) = Inr (bf', r)) \<and>
           (\<forall>xs s ys. passwords = xs @ PyStr s # ys \<and> s \<noteq> [] \<longrightarrow>
              (\<exists>bf1 r1 c bf2.
                 check_password_uniqueness H bf xs = Inr (bf1, r1) \<and> check H bf1 s = Inr c \<and>
                 (if c then bf2 = bf1 else add H bf1 s = Inr bf2) \<and>
                 check_password_uniqueness H bf (xs @ [PyStr s]) =
                   Inr (bf2, r1(PyStr s \<mapsto> (if c then Already_used else Unique))) \<and>
                 (PyStr s \<notin> set ys \<longrightarrow>
                    results (PyStr s) = Some (if c then Already_used else Unique)) \<and>
                 (PyStr s \<in> set ys \<longrightarrow> results (PyStr s) = Some Already_used) \<and>
                 check H bf' s = Inr True))"
proof -
  from cpu_loop_total[OF assms(1), of passwords H Map.empty] assms(2)
  obtain bf' results where run: "cpu_loop H bf Map.empty passwords = Inr (bf', results)"
    by blast
  have d: "dom results = set passwords" using cpu_loop_dom[OF run] by simp
  have inv: "\<forall>p \<in> set passwords. \<not> valid_password p \<longrightarrow> results p = Some Incorrect"
    using cpu_loop_invalid_status[OF run] by blast
  have flt: "\<exists>r. cpu_loop H bf Map.empty (filter valid_password passwords) = Inr (bf', r)"
    using run by (rule cpu_loop_filter_valid)
  have occ: "\<exists>bf1 r1 c bf2.
       cpu_loop H bf Map.empty xs = Inr (bf1, r1) \<and> check H bf1 s = Inr c \<and>
       (if c then bf2 = bf1 else add H bf1 s = Inr bf2) \<and>
       cpu_loop H bf Map.empty (xs @ [PyStr s]) =
         Inr (bf2, r1(PyStr s \<mapsto> (if c then Already_used else Unique))) \<and>
       (PyStr s \<notin> set ys \<longrightarrow> results (PyStr s) = Some (if c then Already_used else Unique)) \<and>
       (PyStr s \<in> set ys \<longrightarrow> results (PyStr s) = Some Already_used) \<and>
       check H bf' s = Inr True"
    if split: "passwords = xs @ PyStr s # ys" and s: "s \<noteq> []" for xs s ys
  proof -
    from run split have "cpu_loop H bf Map.empty (xs @ PyStr s # ys) = Inr (bf', results)" by simp
    from cpu_loop_occurrence[OF this s] obtain bf1 r1 c bf2 where
      o: "cpu_loop H bf Map.empty xs = Inr (bf1, r1)" "check H bf1 s = Inr c"
        "if c then bf2 = bf1 else add H bf1 s = Inr bf2"
        "cpu_loop H bf Map.empty (xs @ [PyStr s]) =
           Inr (bf2, r1(PyStr s \<mapsto> (if c then Already_used else Unique)))"
        "cpu_loop H bf2 (r1(PyStr s \<mapsto> (if c then Already_used else Unique))) ys = Inr (bf', results)"
        "probes_set H bf2 s"
      by blast
    have last: "results (PyStr s) = Some (if c then Already_used else Unique)" if "PyStr s \<notin> set ys"
      using cpu_loop_other_key[OF o(5) that] by simp
    have again: "results (PyStr s) = Some Already_used" if "PyStr s \<in> set ys"
      using o(5,6) s that by (rule cpu_loop_seen)
    have "probes_set H bf' s" using o(5,6) by (rule cpu_loop_keeps_probes_set)
    then have "check H bf' s = Inr True" by (rule probes_set_check)
    with o(1-4) last again show ?thesis by blast
  qed
  show ?thesis
    unfolding check_password_uniqueness_def
    using run d inv flt occ by blast
qed

theorem check_password_uniqueness_statuses_witness:
  "bf_wf sample_filter \<and>
   list_all hashable [PyStr ''a'', PyNone, PyStr [], PyInt 7, PyStr ''a''] \<and>
   check_password_uniqueness sample_mmh3 sample_filter
       [PyStr ''a'', PyNone, PyStr [], PyInt 7, PyStr ''a''] =
     Inr (\<lparr>bf_size = 10, num_hashes = 3,
            bit_array = [False, True, False, False, True, False, False, False, True, False]\<rparr>,
          [PyStr ''a'' \<mapsto> Unique, PyNone \<mapsto> Incorrect, PyStr [] \<mapsto> Incorrect,
           PyInt 7 \<mapsto> Incorrect, PyStr ''a'' \<mapsto> Already_used]) \<and>
   check_password_uniqueness sample_mmh3 sample_filter [PyStr ''a'', PyStr ''a''] =
     Inr (\<lparr>bf_size = 10, num_hashes = 3,
            bit_array = [False, True, False, False, True, False, False, False, True, False]\<rparr>,
          [PyStr ''a'' \<mapsto> Already_used]) \<and>
   check_password_uniqueness sample_mmh3 sample_filter [PyStr ''a''] =
     Inr (\<lparr>bf_size = 10, num_hashes = 3,
            bit_array = [False, True, False, False, True, False, False, False, True, False]\<rparr>,
          [PyStr ''a'' \<mapsto> Unique])"
proof -
  have w: "bf_wf sample_filter" by (simp add: bf_wf_def sample_filter_def)
  have h: "\<forall>p \<in> set [PyStr ''a'', PyNone, PyStr [], PyInt 7, PyStr ''a'']. hashable p" by simp
  have e: "check_password_uniqueness sample_mmh3 sample_filter
       [PyStr ''a'', PyNone, PyStr [], PyInt 7, PyStr ''a''] =
     Inr (\<lparr>bf_size = 10, num_hashes = 3,
            bit_array = [False, True, False, False, True, False, False, False, True, False]\<rparr>,
          [PyStr ''a'' \<mapsto> Unique, PyNone \<mapsto> Incorrect, PyStr [] \<mapsto> Incorrect,
           PyInt 7 \<mapsto> Incorrect, PyStr ''a'' \<mapsto> Already_used])"
    by (simp add: check_password_uniqueness_def cpu_loop.simps(2) bloom_eval)
  have e2: "check_password_uniqueness sample_mmh3 sample_filter [PyStr ''a'', PyStr ''a''] =
     Inr (\<lparr>bf_size = 10, num_hashes = 3,
            bit_array = [False, True, False, False, True, False, False, False, True, False]\<rparr>,
          [PyStr ''a'' \<mapsto> Already_used])"
    by (simp add: check_password_uniqueness_def cpu_loop.simps(2) bloom_eval)
  have e1: "check_password_uniqueness sample_mmh3 sample_filter [PyStr ''a''] =
     Inr (\<lparr>bf_size = 10, num_hashes = 3,
            bit_array = [False, True, False, False, True, False, False, False, True, False]\<rparr>,
          [PyStr ''a'' \<mapsto> Unique])"
    by (simp add: check_password_uniqueness_def cpu_loop.simps(2) bloom_eval)
  from check_password_uniqueness_statuses [OF w h, of sample_mmh3] e
  have "dom [PyStr ''a'' \<mapsto> Unique, PyNone \<mapsto> Incorrect, PyStr [] \<mapsto> Incorrect,
           PyInt 7 \<mapsto> Incorrect, PyStr ''a'' \<mapsto> Already_used] =
        set [PyStr ''a'', PyNone, PyStr [], PyInt 7, PyStr ''a'']"
    by auto
  with w e e1 e2 show ?thesis by simp
qed

text \<open>
  On \<open>BloomFilter(1, 1)\<close> every string probes bit 0. In the list \<open>a, b, b\<close> the string
  \<open>b\<close> is reported already-used at its first occurrence, because \<open>a\<close> has set the bit,
  and the dictionary returned for the whole list holds no unique status for it. No
  dictionary is returned for a list that holds a list, nor, on \<open>BloomFilter(0, 1)\<close>, for
  one that holds a non-empty string.
\<close>

theorem check_password_uniqueness_statuses_counterexample:
  "BloomFilter_init 1 1 = Inr \<lparr>bf_size = 1, num_hashes = 1, bit_array = [False]\<rparr> \<and>
   check_password_uniqueness sample_mmh3 \<lparr>bf_size = 1, num_hashes = 1, bit_array = [False]\<rparr>
       [PyStr ''a'', PyStr ''b''] =
     Inr (\<lparr>bf_size = 1, num_hashes = 1, bit_array = [True]\<rparr>,
          [PyStr ''a'' \<mapsto> Unique, PyStr ''b'' \<mapsto> Already_used]) \<and>
   check_password_uniqueness sample_mmh3 \<lparr>bf_size = 1, num_hashes = 1, bit_array = [False]\<rparr>
       [PyStr ''a'', PyStr ''b'', PyStr ''b''] =
     Inr (\<lparr>bf_size = 1, num_hashes = 1, bit_array = [True]\<rparr>,
          [PyStr ''a'' \<mapsto> Unique, PyStr ''b'' \<mapsto> Already_used]) \<and>
   check_password_uniqueness sample_mmh3 \<lparr>bf_size = 1, num_hashes = 1, bit_array = [False]\<rparr>
       [PyList []] = Inl TypeError \<and>
   check_password_uniqueness sample_mmh3 \<lparr>bf_size = 0, num_hashes = 1, bit_array = []\<rparr>
       [PyStr ''a''] = Inl ZeroDivisionError"
  by (simp add: BloomFilter_init_def check_password_uniqueness_def cpu_loop.simps(2) add_def
      check_def hashes_def hash_value_def py_index_def)

end
